theory Spec2Isabelle
  imports Main "HOL-Library.AList"
begin

section \<open>The LRU cache of \<open>backend/lru.go\<close>\<close>

subsection \<open>Time\<close>

text \<open>
  A \<open>time.Time\<close> is a point on the integer line, counted in nanoseconds; the clock reading
  \<open>time.Now()\<close> of an operation is a parameter \<open>now\<close> of its model. A \<open>time.Duration\<close> is
  a signed 64-bit count of nanoseconds, so the product
  \<open>time.Duration(lru.expireSec) * time.Second\<close> wraps around.
\<close>

definition wrap64 :: "int \<Rightarrow> int" where
  "wrap64 x = (x + 2 ^ 63) mod 2 ^ 64 - 2 ^ 63"

definition Second :: int where
  "Second = 1000000000"

definition After :: "int \<Rightarrow> int \<Rightarrow> bool" where
  "After t u = (u < t)"

subsection \<open>Data\<close>

text \<open>
  \<open>CacheItem\<close> is the struct of the source (its field \<open>value\<close> is written \<open>value'\<close>).
  A \<open>*list.Element\<close> is an address; the element store \<open>elems\<close> holds, at each address
  handed out so far, the \<open>CacheItem\<close> the element points to. The Go map
  \<open>map[int]*list.Element\<close> is an association list from keys to addresses, \<open>len\<close> being its
  length; the \<open>container/list\<close> is the sequence of its elements' addresses, front first.
  The field \<open>list\<close> of the source is written \<open>list'\<close>.
\<close>

record CacheItem =
  key :: int
  value' :: int
  expireAt :: int

type_synonym elem = nat

record LRUCache =
  capacity :: int
  expireSec :: int
  cache :: "(int \<times> elem) list"
  list' :: "elem list"
  elems :: "CacheItem list"

datatype panic = NilPointerDereference

subsection \<open>The operations of \<open>container/list\<close> the cache uses\<close>

definition PushFront :: "elem \<Rightarrow> elem list \<Rightarrow> elem list" where
  "PushFront e l = e # l"

text \<open>\<open>Remove\<close> leaves the list alone when the element is not one of its own.\<close>

definition Remove :: "elem \<Rightarrow> elem list \<Rightarrow> elem list" where
  "Remove e l = (if e \<in> set l then remove1 e l else l)"

text \<open>\<open>MoveToFront\<close> returns at once for a foreign element and for the front element.\<close>

definition MoveToFront :: "elem \<Rightarrow> elem list \<Rightarrow> elem list" where
  "MoveToFront e l =
     (if e \<notin> set l then l else if hd l = e then l else e # remove1 e l)"

text \<open>\<open>Back\<close> is \<open>nil\<close> (here \<open>None\<close>) on the empty list.\<close>

definition Back :: "elem list \<Rightarrow> elem option" where
  "Back l = (if l = [] then None else Some (last l))"

subsection \<open>Construction\<close>

text \<open>
  \<open>NewLRUCache\<close> stores its two arguments and two empty containers. It has no failing
  branch; the result type carries one so that the outcome of a construction can be stated.
\<close>

definition NewLRUCache :: "int \<Rightarrow> int \<Rightarrow> panic + LRUCache" where
  "NewLRUCache cap sec =
     Inr \<lparr>capacity = cap, expireSec = sec, cache = [], list' = [], elems = []\<rparr>"

text \<open>The deadline arithmetic \<open>time.Duration(lru.expireSec) * time.Second\<close>.\<close>

definition ttl :: "LRUCache \<Rightarrow> int" where
  "ttl c = wrap64 (expireSec c * Second)"

subsection \<open>Get\<close>

text \<open>The result is the cache after the call and the returned integer, \<open>-1\<close> for a miss.\<close>

definition Get :: "int \<Rightarrow> int \<Rightarrow> LRUCache \<Rightarrow> LRUCache \<times> int" where
  "Get now k c =
     (case map_of (cache c) k of
        Some e \<Rightarrow>
          if After now (expireAt (elems c ! e))
          then (c\<lparr>cache := AList.delete k (cache c), list' := Remove e (list' c)\<rparr>, - 1)
          else (c\<lparr>list' := MoveToFront e (list' c)\<rparr>, value' (elems c ! e))
      | None \<Rightarrow> (c, - 1))"

subsection \<open>Set\<close>

text \<open>Lines 79 and 80: a new element is allocated, pushed to the front and indexed.\<close>

definition insert_front :: "int \<Rightarrow> int \<Rightarrow> int \<Rightarrow> LRUCache \<Rightarrow> LRUCache" where
  "insert_front now k v c =
     (let e = length (elems c)
      in c\<lparr>elems := elems c @ [\<lparr>key = k, value' = v, expireAt = now + ttl c\<rparr>],
           list' := PushFront e (list' c),
           cache := AList.update k e (cache c)\<rparr>)"

text \<open>
  Lines 76 and 77: each of the two calls of \<open>Back()\<close> is dereferenced, which panics on
  \<open>nil\<close>.
\<close>

definition evict_back :: "LRUCache \<Rightarrow> panic + LRUCache" where
  "evict_back c =
     (case Back (list' c) of
        None \<Rightarrow> Inl NilPointerDereference
      | Some b \<Rightarrow>
          let c1 = c\<lparr>cache := AList.delete (key (elems c ! b)) (cache c)\<rparr>
          in (case Back (list' c1) of
                None \<Rightarrow> Inl NilPointerDereference
              | Some b' \<Rightarrow> Inr (c1\<lparr>list' := Remove b' (list' c1)\<rparr>)))"

definition Set :: "int \<Rightarrow> int \<Rightarrow> int \<Rightarrow> LRUCache \<Rightarrow> panic + LRUCache" where
  "Set now k v c =
     (case map_of (cache c) k of
        Some e \<Rightarrow>
          Inr (c\<lparr>elems := (elems c)[e := (elems c ! e)\<lparr>value' := v, expireAt := now + ttl c\<rparr>],
                 list' := MoveToFront e (list' c)\<rparr>)
      | None \<Rightarrow>
          if capacity c \<le> int (length (cache c))
          then (case evict_back c of
                  Inl p \<Rightarrow> Inl p
                | Inr c1 \<Rightarrow> Inr (insert_front now k v c1))
          else Inr (insert_front now k v c))"

subsection \<open>The sweep\<close>

text \<open>
  One iteration of the inner \<open>range\<close> loop of \<open>cleanup\<close>, at the map entry \<open>(k, e)\<close>, with
  the clock reading \<open>now\<close> that this iteration takes.
\<close>

definition sweep_entry :: "int \<Rightarrow> LRUCache \<Rightarrow> int \<times> elem \<Rightarrow> LRUCache" where
  "sweep_entry now c ke =
     (if After now (expireAt (elems c ! snd ke))
      then c\<lparr>cache := AList.delete (fst ke) (cache c), list' := Remove (snd ke) (list' c)\<rparr>
      else c)"

text \<open>
  The \<open>range\<close> loop over the entries \<open>xs\<close> in the order in which it visits them; \<open>clock k\<close>
  is the reading of \<open>time.Now()\<close> in the iteration that visits key \<open>k\<close>.
\<close>

definition sweep_entries :: "(int \<Rightarrow> int) \<Rightarrow> (int \<times> elem) list \<Rightarrow> LRUCache \<Rightarrow> LRUCache" where
  "sweep_entries clock xs c = foldl (\<lambda>c' ke. sweep_entry (clock (fst ke)) c' ke) c xs"

text \<open>
  One pass of the sweep, between \<open>Lock\<close> and \<open>Unlock\<close>: the loop visits the entries the map
  holds when the pass starts (an iteration deletes no entry but its own). Go fixes no order
  of visit; the model takes the order of the association list, and \<open>sweep_any_order\<close> below
  shows that every other order gives the same cache.
\<close>

definition cleanup_pass :: "(int \<Rightarrow> int) \<Rightarrow> LRUCache \<Rightarrow> LRUCache" where
  "cleanup_pass clock c = sweep_entries clock (cache c) c"

text \<open>
  The outer \<open>for\<close> loop of \<open>cleanup\<close> never ends; the list of the clocks of its passes is
  the fuel of its model.
\<close>

fun cleanup :: "(int \<Rightarrow> int) list \<Rightarrow> LRUCache \<Rightarrow> LRUCache" where
  "cleanup [] c = c"
| "cleanup (t # ts) c = cleanup ts (cleanup_pass t c)"

subsection \<open>Sequences of operations\<close>

text \<open>
  Every operation holds the mutex from start to end, so a history of the cache is a
  sequence of operations, each with the clock readings it takes; the passes of the sweeper
  that \<open>NewLRUCache\<close> starts are operations of the history. A panic ends the history.
\<close>

datatype op = OpGet int int | OpSet int int int | OpSweep "int \<Rightarrow> int"

fun step :: "op \<Rightarrow> LRUCache \<Rightarrow> panic + LRUCache" where
  "step (OpGet now k) c = Inr (fst (Get now k c))"
| "step (OpSet now k v) c = Set now k v c"
| "step (OpSweep clock) c = Inr (cleanup_pass clock c)"

fun run :: "op list \<Rightarrow> LRUCache \<Rightarrow> panic + LRUCache" where
  "run [] c = Inr c"
| "run (x # xs) c = (case step x c of Inl p \<Rightarrow> Inl p | Inr c' \<Rightarrow> run xs c')"

definition run_new :: "int \<Rightarrow> int \<Rightarrow> op list \<Rightarrow> panic + LRUCache" where
  "run_new cap sec xs = (case NewLRUCache cap sec of Inl p \<Rightarrow> Inl p | Inr c \<Rightarrow> run xs c)"

subsection \<open>The write handler\<close>

text \<open>
  A request is its method and its body; the body is \<open>None\<close> when it is not well-formed
  JSON. \<open>json.Decoder.Decode\<close> fills a struct through its exported fields only, those
  whose name starts with an upper-case letter, matching member names without regard to
  case.
\<close>

datatype json =
  JNull | JBool bool | JNum int | JStr string | JArr "json list" | JObj "(string \<times> json) list"

record request =
  Method :: string
  Body :: "json option"

definition is_upper :: "char \<Rightarrow> bool" where
  "is_upper ch = (65 \<le> (of_char ch :: nat) \<and> (of_char ch :: nat) \<le> 90)"

definition to_lower :: "char \<Rightarrow> char" where
  "to_lower ch = (if is_upper ch then char_of (of_char ch + (32 :: nat)) else ch)"

definition EqualFold :: "string \<Rightarrow> string \<Rightarrow> bool" where
  "EqualFold a b = (map to_lower a = map to_lower b)"

definition exported :: "string \<Rightarrow> bool" where
  "exported name = (case name of [] \<Rightarrow> False | ch # _ \<Rightarrow> is_upper ch)"

definition CacheItem_fields :: "string list" where
  "CacheItem_fields = [''key'', ''value'', ''expireAt'']"

definition zero_item :: CacheItem where
  "zero_item = \<lparr>key = 0, value' = 0, expireAt = 0\<rparr>"

fun assign :: "string \<Rightarrow> json \<Rightarrow> CacheItem \<Rightarrow> CacheItem option" where
  "assign f JNull it = Some it"
| "assign f (JNum n) it =
     (if f = ''key'' then Some (it\<lparr>key := n\<rparr>)
      else if f = ''value'' then Some (it\<lparr>value' := n\<rparr>)
      else None)"
| "assign f _ it = None"

fun decode_members :: "(string \<times> json) list \<Rightarrow> CacheItem \<Rightarrow> CacheItem option" where
  "decode_members [] it = Some it"
| "decode_members ((n, v) # ms) it =
     (case find (\<lambda>f. EqualFold f n) (filter exported CacheItem_fields) of
        None \<Rightarrow> decode_members ms it
      | Some f \<Rightarrow>
          (case assign f v it of
             None \<Rightarrow> None
           | Some it' \<Rightarrow> decode_members ms it'))"

text \<open>\<open>None\<close> is a non-nil \<open>err\<close>.\<close>

definition Decode :: "json option \<Rightarrow> CacheItem \<Rightarrow> CacheItem option" where
  "Decode b it =
     (case b of
        None \<Rightarrow> None
      | Some JNull \<Rightarrow> Some it
      | Some (JObj ms) \<Rightarrow> decode_members ms it
      | Some _ \<Rightarrow> None)"

text \<open>The result is the cache after the request and the status code written.\<close>

definition SetHandler :: "int \<Rightarrow> request \<Rightarrow> LRUCache \<Rightarrow> panic + LRUCache \<times> nat" where
  "SetHandler now r c =
     (if Method r \<noteq> ''POST'' then Inr (c, 405)
      else (case Decode (Body r) zero_item of
              None \<Rightarrow> Inr (c, 400)
            | Some item \<Rightarrow>
                (case Set now (key item) (value' item) c of
                   Inl p \<Rightarrow> Inl p
                 | Inr c' \<Rightarrow> Inr (c', 201))))"

subsection \<open>The representation invariant\<close>

text \<open>
  The keys of the map are pairwise different, as in any Go map; the list holds no element
  twice; the map's elements are exactly the list's; and each map entry points to an
  allocated element whose item carries the entry's key.
\<close>

definition cache_inv :: "LRUCache \<Rightarrow> bool" where
  "cache_inv c \<longleftrightarrow>
     distinct (map fst (cache c)) \<and>
     distinct (list' c) \<and>
     set (map snd (cache c)) = set (list' c) \<and>
     list_all (\<lambda>(k, e). e < length (elems c) \<and> key (elems c ! e) = k) (cache c)"

text \<open>
  The map entry \<open>(k, e)\<close> is expired for a pass when the reading taken at its visit is after
  its deadline.
\<close>

definition expired :: "(int \<Rightarrow> int) \<Rightarrow> LRUCache \<Rightarrow> int \<times> elem \<Rightarrow> bool" where
  "expired clock c ke = After (clock (fst ke)) (expireAt (elems c ! snd ke))"

subsection \<open>Two concrete caches\<close>

text \<open>
  \<open>two_entries\<close> is the cache of capacity 2 and a TTL of 5 seconds after \<open>Set(1, 10)\<close> at
  time 0 and \<open>Set(2, 20)\<close> two seconds later; \<open>sentinel_entry\<close> is the same cache after
  \<open>Set(1, -1)\<close> at time 0.
\<close>

definition two_entries :: LRUCache where
  "two_entries =
     \<lparr>capacity = 2, expireSec = 5, cache = [(1, 0), (2, 1)], list' = [1, 0],
      elems = [\<lparr>key = 1, value' = 10, expireAt = 5000000000\<rparr>,
               \<lparr>key = 2, value' = 20, expireAt = 7000000000\<rparr>]\<rparr>"

definition sentinel_entry :: LRUCache where
  "sentinel_entry =
     \<lparr>capacity = 2, expireSec = 5, cache = [(1, 0)], list' = [0],
      elems = [\<lparr>key = 1, value' = - 1, expireAt = 5000000000\<rparr>]\<rparr>"

section \<open>Association lists and the invariant\<close>

lemma update_fresh: "k \<notin> fst ` set al \<Longrightarrow> AList.update k v al = al @ [(k, v)]"
  by (induction al) auto

lemma map_of_None_fresh: "map_of al k = None \<Longrightarrow> k \<notin> fst ` set al"
  by (simp add: map_of_eq_None_iff)

lemma set_delete: "set (AList.delete k al) = {p \<in> set al. fst p \<noteq> k}"
  by (auto simp: AList.delete_eq)

lemma inv_entry:
  "cache_inv c \<Longrightarrow> (k, e) \<in> set (cache c) \<Longrightarrow> e < length (elems c) \<and> key (elems c ! e) = k \<and> e \<in> set (list' c)"
  unfolding cache_inv_def list_all_iff by force

lemma inv_key_unique:
  "cache_inv c \<Longrightarrow> (k, e) \<in> set (cache c) \<Longrightarrow> (k', e) \<in> set (cache c) \<Longrightarrow> k = k'"
  using inv_entry by metis

lemma inv_distinct_snd: "cache_inv c \<Longrightarrow> distinct (map snd (cache c))"
proof -
  assume i: "cache_inv c"
  have "inj_on snd (set (cache c))"
    by (rule inj_onI) (metis i inv_key_unique prod.collapse)
  moreover have "distinct (cache c)" using i unfolding cache_inv_def by (metis distinct_map)
  ultimately show ?thesis by (simp add: distinct_map)
qed

lemma inv_length: "cache_inv c \<Longrightarrow> length (cache c) = length (list' c)"
proof -
  assume i: "cache_inv c"
  have "length (cache c) = length (map snd (cache c))" by simp
  also have "\<dots> = card (set (map snd (cache c)))"
    using inv_distinct_snd [OF i] by (simp only: distinct_card)
  also have "\<dots> = card (set (list' c))" using i unfolding cache_inv_def by simp
  also have "\<dots> = length (list' c)" using i unfolding cache_inv_def by (simp add: distinct_card)
  finally show ?thesis .
qed

lemma inv_lookup: "cache_inv c \<Longrightarrow> map_of (cache c) k = Some e \<longleftrightarrow> (k, e) \<in> set (cache c)"
  unfolding cache_inv_def by simp

section \<open>Get, Set and the invariant\<close>

lemma Remove_remove1: "Remove e l = remove1 e l"
  by (simp add: Remove_def remove1_idem)

lemma set_MoveToFront: "set (MoveToFront e l) = set l"
proof -
  have "e \<in> set l \<Longrightarrow> insert e (set (remove1 e l)) = set l"
    by (induction l) auto
  then show ?thesis by (simp add: MoveToFront_def)
qed

lemma distinct_MoveToFront: "distinct l \<Longrightarrow> distinct (MoveToFront e l)"
  by (simp add: MoveToFront_def)

lemma inv_move:
  "cache_inv c \<Longrightarrow> cache_inv (c\<lparr>list' := MoveToFront e (list' c)\<rparr>)"
  by (simp add: cache_inv_def set_MoveToFront distinct_MoveToFront)

lemma inv_drop:
  assumes i: "cache_inv c" and m: "(k, e) \<in> set (cache c)"
  shows "cache_inv (c\<lparr>cache := AList.delete k (cache c), list' := Remove e (list' c)\<rparr>)"
proof -
  have dk: "distinct (map fst (cache c))" and dl: "distinct (list' c)"
    and eq: "set (map snd (cache c)) = set (list' c)"
    using i by (simp_all add: cache_inv_def)
  have "snd ` {p \<in> set (cache c). fst p \<noteq> k} = snd ` set (cache c) - {e}"
  proof (intro equalityI subsetI)
    fix x assume "x \<in> snd ` {p \<in> set (cache c). fst p \<noteq> k}"
    then obtain k' where "(k', x) \<in> set (cache c)" "k' \<noteq> k" by auto
    then show "x \<in> snd ` set (cache c) - {e}"
      using inv_key_unique [OF i _ m] by force
  next
    fix x assume "x \<in> snd ` set (cache c) - {e}"
    then obtain k' where "(k', x) \<in> set (cache c)" "x \<noteq> e" by auto
    moreover from this have "k' \<noteq> k" using dk m by (metis eq_key_imp_eq_value)
    ultimately show "x \<in> snd ` {p \<in> set (cache c). fst p \<noteq> k}" by force
  qed
  then have "set (map snd (AList.delete k (cache c))) = set (Remove e (list' c))"
    using eq dl by (simp add: set_delete Remove_remove1)
  moreover have "list_all (\<lambda>(k, e). e < length (elems c) \<and> key (elems c ! e) = k)
      (AList.delete k (cache c))"
    using i by (auto simp: cache_inv_def list_all_iff set_delete)
  ultimately show ?thesis
    using dk dl by (simp add: cache_inv_def distinct_delete Remove_remove1)
qed

lemma Get_inv: "cache_inv c \<Longrightarrow> cache_inv (fst (Get now k c))"
  by (auto simp: Get_def inv_move inv_drop inv_lookup split: option.splits)

lemma Get_frame:
  "capacity (fst (Get now k c)) = capacity c"
  "expireSec (fst (Get now k c)) = expireSec c"
  "elems (fst (Get now k c)) = elems c"
  by (auto simp: Get_def split: option.splits)

lemma Get_length: "length (cache (fst (Get now k c))) \<le> length (cache c)"
  by (auto simp: Get_def length_delete_le split: option.splits)

lemma inv_touch:
  assumes i: "cache_inv c"
  shows "cache_inv (c\<lparr>elems := (elems c)[e := (elems c ! e)\<lparr>value' := v, expireAt := t\<rparr>],
                      list' := MoveToFront e (list' c)\<rparr>)"
proof -
  have "list_all (\<lambda>(k, e'). e' < length (elems c) \<and>
          key ((elems c)[e := (elems c ! e)\<lparr>value' := v, expireAt := t\<rparr>] ! e') = k) (cache c)"
    unfolding list_all_iff
  proof
    fix x assume x: "x \<in> set (cache c)"
    obtain k' e' where p: "x = (k', e')" by (cases x)
    with x i have "e' < length (elems c)" "key (elems c ! e') = k'"
      using inv_entry by auto
    then show "case x of (k, e') \<Rightarrow> e' < length (elems c) \<and>
          key ((elems c)[e := (elems c ! e)\<lparr>value' := v, expireAt := t\<rparr>] ! e') = k"
      by (cases "e' = e") (simp_all add: p)
  qed
  then show ?thesis
    using i by (simp add: cache_inv_def set_MoveToFront distinct_MoveToFront)
qed

lemma inv_insert_front:
  assumes i: "cache_inv c" and n: "map_of (cache c) k = None"
  shows "cache_inv (insert_front now k v c)"
proof -
  have fresh: "k \<notin> fst ` set (cache c)" using n by (rule map_of_None_fresh)
  have new: "length (elems c) \<notin> set (list' c)"
    using i by (force simp: cache_inv_def list_all_iff)
  show ?thesis
    using i fresh new
    by (auto simp: cache_inv_def insert_front_def Let_def PushFront_def update_fresh
        list_all_iff nth_append)
qed

lemma insert_front_frame:
  "capacity (insert_front now k v c) = capacity c"
  "expireSec (insert_front now k v c) = expireSec c"
  by (simp_all add: insert_front_def Let_def)

lemma insert_front_length:
  "map_of (cache c) k = None \<Longrightarrow> length (cache (insert_front now k v c)) = Suc (length (cache c))"
  by (simp add: insert_front_def Let_def update_fresh map_of_None_fresh)


lemma remove1_last: "distinct l \<Longrightarrow> l \<noteq> [] \<Longrightarrow> remove1 (last l) l = butlast l"
  by (induction l) (auto)

lemma evict_back_eq:
  "distinct (list' c) \<Longrightarrow> list' c \<noteq> [] \<Longrightarrow>
   evict_back c = Inr (c\<lparr>cache := AList.delete (key (elems c ! last (list' c))) (cache c),
                         list' := butlast (list' c)\<rparr>)"
  by (simp add: evict_back_def Back_def Let_def Remove_def remove1_last)

lemma evict_back_Inr_nonempty: "evict_back c = Inr c1 \<Longrightarrow> list' c \<noteq> []"
  by (auto simp: evict_back_def Back_def split: if_splits)

lemma evict_back_inv:
  assumes i: "cache_inv c" and ne: "list' c \<noteq> []"
  shows "\<exists>c1. evict_back c = Inr c1 \<and> cache_inv c1 \<and>
           Suc (length (cache c1)) = length (cache c) \<and>
           capacity c1 = capacity c \<and> expireSec c1 = expireSec c \<and> elems c1 = elems c \<and>
           list' c1 = butlast (list' c) \<and>
           cache c1 = AList.delete (key (elems c ! last (list' c))) (cache c) \<and>
           (last (list' c) \<in> snd ` set (cache c))"
proof -
  let ?b = "last (list' c)"
  let ?c1 = "c\<lparr>cache := AList.delete (key (elems c ! ?b)) (cache c), list' := butlast (list' c)\<rparr>"
  have dl: "distinct (list' c)" using i by (simp add: cache_inv_def)
  have "?b \<in> set (list' c)" using ne by simp
  then have bs: "?b \<in> snd ` set (cache c)" using i by (simp add: cache_inv_def)
  then obtain kb where m: "(kb, ?b) \<in> set (cache c)" by auto
  then have kb: "key (elems c ! ?b) = kb" using inv_entry [OF i] by blast
  have "cache_inv (c\<lparr>cache := AList.delete kb (cache c), list' := Remove ?b (list' c)\<rparr>)"
    using i m by (rule inv_drop)
  then have i1: "cache_inv ?c1"
    using dl ne by (simp add: kb Remove_remove1 remove1_last)
  have "length (cache ?c1) = length (list' ?c1)" using i1 by (rule inv_length)
  then have "Suc (length (cache ?c1)) = length (cache c)"
    using ne inv_length [OF i] by simp
  moreover have "evict_back c = Inr ?c1" using dl ne by (rule evict_back_eq)
  ultimately show ?thesis using i1 bs by simp
qed

lemma map_of_delete_None: "map_of al k = None \<Longrightarrow> map_of (AList.delete k' al) k = None"
  by (simp add: delete_conv')

lemma Set_cases:
  assumes i: "cache_inv c" and r: "Set now k v c = Inr c'"
  shows "cache_inv c' \<and> capacity c' = capacity c \<and> expireSec c' = expireSec c \<and>
         (int (length (cache c)) \<le> capacity c \<longrightarrow> int (length (cache c')) \<le> capacity c)"
proof (cases "map_of (cache c) k")
  case (Some e)
  with r have c': "c' = c\<lparr>elems := (elems c)[e := (elems c ! e)\<lparr>value' := v, expireAt := now + ttl c\<rparr>],
                 list' := MoveToFront e (list' c)\<rparr>"
    by (simp add: Set_def)
  show ?thesis unfolding c' using inv_touch [OF i] by simp
next
  case None
  show ?thesis
  proof (cases "capacity c \<le> int (length (cache c))")
    case False
    with None r have c': "c' = insert_front now k v c" by (simp add: Set_def)
    show ?thesis unfolding c'
      using False inv_insert_front [OF i None] insert_front_length [OF None]
      by (simp add: insert_front_frame)
  next
    case True
    with None r obtain c1 where e: "evict_back c = Inr c1" and c': "c' = insert_front now k v c1"
      by (auto simp: Set_def split: sum.splits)
    from e have ne: "list' c \<noteq> []" by (rule evict_back_Inr_nonempty)
    from evict_back_inv [OF i ne] e
    have i1: "cache_inv c1" and l1: "Suc (length (cache c1)) = length (cache c)"
      and f1: "capacity c1 = capacity c" "expireSec c1 = expireSec c"
      and d1: "cache c1 = AList.delete (key (elems c ! last (list' c))) (cache c)"
      by auto
    have n1: "map_of (cache c1) k = None" unfolding d1 using None by (rule map_of_delete_None)
    show ?thesis unfolding c'
      using inv_insert_front [OF i1 n1] insert_front_length [OF n1] l1 f1
      by (simp add: insert_front_frame)
  qed
qed

lemma Set_total:
  assumes i: "cache_inv c" and p: "0 < capacity c"
  shows "\<exists>c'. Set now k v c = Inr c'"
proof (cases "map_of (cache c) k = None \<and> capacity c \<le> int (length (cache c))")
  case False
  then show ?thesis by (auto simp: Set_def split: option.splits)
next
  case True
  with p have "cache c \<noteq> []" by auto
  then have "list' c \<noteq> []" using inv_length [OF i] by auto
  from evict_back_inv [OF i this] obtain c1 where "evict_back c = Inr c1" by blast
  with True show ?thesis by (simp add: Set_def)
qed

subsection \<open>The sweep keeps the invariant\<close>

lemma sweep_entry_frame:
  "elems (sweep_entry now c x) = elems c"
  "capacity (sweep_entry now c x) = capacity c"
  "expireSec (sweep_entry now c x) = expireSec c"
  by (simp_all add: sweep_entry_def)

lemma sweep_entries_Cons:
  "sweep_entries clock (x # xs) c = sweep_entries clock xs (sweep_entry (clock (fst x)) c x)"
  by (simp add: sweep_entries_def)

lemma sweep_fold:
  assumes "cache_inv c" and "set xs \<subseteq> set (cache c)" and "distinct (map fst xs)"
  shows "cache_inv (sweep_entries clock xs c) \<and>
         elems (sweep_entries clock xs c) = elems c \<and>
         capacity (sweep_entries clock xs c) = capacity c \<and>
         expireSec (sweep_entries clock xs c) = expireSec c \<and>
         cache (sweep_entries clock xs c) =
           filter (\<lambda>p. \<not> (p \<in> set xs \<and> expired clock c p)) (cache c) \<and>
         list' (sweep_entries clock xs c) =
           filter (\<lambda>e. \<not> (\<exists>k. (k, e) \<in> set xs \<and> expired clock c (k, e))) (list' c)"
  using assms
proof (induction xs arbitrary: c)
  case Nil
  then show ?case by (simp add: sweep_entries_def)
next
  case (Cons x xs)
  obtain k e where x: "x = (k, e)" by (cases x)
  have m: "(k, e) \<in> set (cache c)" using Cons.prems(2) x by simp
  have dk: "distinct (map fst (cache c))" and dl: "distinct (list' c)"
    using Cons.prems(1) by (simp_all add: cache_inv_def)
  show ?case
  proof (cases "expired clock c (k, e)")
    case False
    then have s: "sweep_entry (clock (fst x)) c x = c"
      by (simp add: sweep_entry_def expired_def x)
    have "set xs \<subseteq> set (cache c)" "distinct (map fst xs)" using Cons.prems by simp_all
    note ih = Cons.IH [OF Cons.prems(1) this]
    have A: "filter (\<lambda>p. \<not> (p \<in> set xs \<and> expired clock c p)) (cache c) =
          filter (\<lambda>p. \<not> (p \<in> set (x # xs) \<and> expired clock c p)) (cache c)"
      by (rule filter_cong [OF refl]) (use False x in auto)
    have B: "filter (\<lambda>e'. \<not> (\<exists>k'. (k', e') \<in> set xs \<and> expired clock c (k', e'))) (list' c) =
          filter (\<lambda>e'. \<not> (\<exists>k'. (k', e') \<in> set (x # xs) \<and> expired clock c (k', e'))) (list' c)"
      by (rule filter_cong [OF refl]) (use False x in auto)
    have "sweep_entries clock (x # xs) c = sweep_entries clock xs c"
      by (simp add: sweep_entries_Cons s)
    then show ?thesis using ih unfolding A B by simp
  next
    case True
    let ?c1 = "c\<lparr>cache := AList.delete k (cache c), list' := Remove e (list' c)\<rparr>"
    have s: "sweep_entry (clock (fst x)) c x = ?c1"
      using True by (simp add: sweep_entry_def expired_def x)
    have i1: "cache_inv ?c1" using Cons.prems(1) m by (rule inv_drop)
    have sub: "set xs \<subseteq> set (cache ?c1)"
      using Cons.prems(2,3) by (auto simp: set_delete x)
    have d: "distinct (map fst xs)" using Cons.prems(3) by simp
    have ex: "expired clock ?c1 = expired clock c" by (simp add: expired_def fun_eq_iff)
    have A: "filter (\<lambda>p. \<not> (p \<in> set xs \<and> expired clock c p)) (AList.delete k (cache c)) =
          filter (\<lambda>p. \<not> (p \<in> set (x # xs) \<and> expired clock c p)) (cache c)"
      unfolding AList.delete_eq filter_filter
    proof (rule filter_cong [OF refl])
      fix p assume p: "p \<in> set (cache c)"
      have "fst p = k \<longleftrightarrow> p = (k, e)"
        using dk m p by (metis eq_key_imp_eq_value fst_conv prod.collapse)
      then show "((case p of (k', _) \<Rightarrow> k \<noteq> k') \<and> \<not> (p \<in> set xs \<and> expired clock c p)) =
           (\<not> (p \<in> set (x # xs) \<and> expired clock c p))"
        using True by (auto simp: x)
    qed
    have B: "filter (\<lambda>e'. \<not> (\<exists>k'. (k', e') \<in> set xs \<and> expired clock c (k', e')))
            (Remove e (list' c)) =
          filter (\<lambda>e'. \<not> (\<exists>k'. (k', e') \<in> set (x # xs) \<and> expired clock c (k', e'))) (list' c)"
    proof -
      have "Remove e (list' c) = filter (\<lambda>e'. e' \<noteq> e) (list' c)"
        using dl
        by (simp add: Remove_remove1 distinct_remove1_removeAll removeAll_filter_not_eq) metis
      moreover have
        "filter (\<lambda>e'. \<not> (\<exists>k'. (k', e') \<in> set xs \<and> expired clock c (k', e')))
            (filter (\<lambda>e'. e' \<noteq> e) (list' c)) =
         filter (\<lambda>e'. \<not> (\<exists>k'. (k', e') \<in> set (x # xs) \<and> expired clock c (k', e'))) (list' c)"
        unfolding filter_filter by (rule filter_cong [OF refl]) (use True x in auto)
      ultimately show ?thesis by simp
    qed
    note ih = Cons.IH [OF i1 sub d, unfolded ex]
    have f: "sweep_entries clock (x # xs) c = sweep_entries clock xs ?c1"
      by (simp add: sweep_entries_Cons s)
    have c1: "cache ?c1 = AList.delete k (cache c)" "list' ?c1 = Remove e (list' c)"
      "elems ?c1 = elems c" "capacity ?c1 = capacity c" "expireSec ?c1 = expireSec c"
      by simp_all
    show ?thesis using ih unfolding f c1 A B .
  qed
qed

text \<open>
  Whatever order the loop visits the entries in, the pass leaves the entries that are not
  expired at their visit, in the map and in the list.
\<close>

lemma sweep_entries_eq:
  assumes i: "cache_inv c" and xs: "set xs = set (cache c)" and d: "distinct (map fst xs)"
  shows "cache_inv (sweep_entries clock xs c)"
    "elems (sweep_entries clock xs c) = elems c"
    "capacity (sweep_entries clock xs c) = capacity c"
    "expireSec (sweep_entries clock xs c) = expireSec c"
    "cache (sweep_entries clock xs c) =
       filter (\<lambda>(k, e). \<not> After (clock k) (expireAt (elems c ! e))) (cache c)"
    "list' (sweep_entries clock xs c) =
       filter (\<lambda>e. \<not> After (clock (key (elems c ! e))) (expireAt (elems c ! e))) (list' c)"
proof -
  have eq: "snd ` set (cache c) = set (list' c)" using i by (simp add: cache_inv_def)
  have sub: "set xs \<subseteq> set (cache c)" using xs by simp
  note f = sweep_fold [OF i sub d, of clock]
  from f show "cache_inv (sweep_entries clock xs c)" "elems (sweep_entries clock xs c) = elems c"
    "capacity (sweep_entries clock xs c) = capacity c"
    "expireSec (sweep_entries clock xs c) = expireSec c"
    by simp_all
  have "filter (\<lambda>p. \<not> (p \<in> set xs \<and> expired clock c p)) (cache c) =
      filter (\<lambda>(k, e). \<not> After (clock k) (expireAt (elems c ! e))) (cache c)"
    by (rule filter_cong [OF refl]) (auto simp: xs expired_def)
  with f show "cache (sweep_entries clock xs c) =
      filter (\<lambda>(k, e). \<not> After (clock k) (expireAt (elems c ! e))) (cache c)"
    by simp
  have "filter (\<lambda>e. \<not> (\<exists>k. (k, e) \<in> set xs \<and> expired clock c (k, e))) (list' c) =
      filter (\<lambda>e. \<not> After (clock (key (elems c ! e))) (expireAt (elems c ! e))) (list' c)"
  proof (rule filter_cong [OF refl])
    fix e assume "e \<in> set (list' c)"
    then obtain k where m: "(k, e) \<in> set (cache c)" using eq by force
    have "\<And>k'. (k', e) \<in> set (cache c) \<Longrightarrow> key (elems c ! e) = k'"
      using inv_entry [OF i] by blast
    with m show "(\<not> (\<exists>k. (k, e) \<in> set xs \<and> expired clock c (k, e))) =
        (\<not> After (clock (key (elems c ! e))) (expireAt (elems c ! e)))"
      by (auto simp: xs expired_def)
  qed
  with f show "list' (sweep_entries clock xs c) =
      filter (\<lambda>e. \<not> After (clock (key (elems c ! e))) (expireAt (elems c ! e))) (list' c)"
    by simp
qed

lemma sweep_any_order:
  assumes "cache_inv c" and "set xs = set (cache c)" and "distinct (map fst xs)"
  shows "sweep_entries clock xs c = cleanup_pass clock c"
proof -
  have "distinct (map fst (cache c))" using assms(1) by (simp add: cache_inv_def)
  note a = sweep_entries_eq [OF assms, of clock]
    and b = sweep_entries_eq [OF assms(1) refl this, of clock]
  show ?thesis unfolding cleanup_pass_def
    by (rule LRUCache.equality) (simp_all add: a b)
qed

lemma cleanup_pass_eq:
  assumes i: "cache_inv c"
  shows "cache_inv (cleanup_pass clock c)"
    "elems (cleanup_pass clock c) = elems c"
    "capacity (cleanup_pass clock c) = capacity c"
    "expireSec (cleanup_pass clock c) = expireSec c"
    "cache (cleanup_pass clock c) =
       filter (\<lambda>(k, e). \<not> After (clock k) (expireAt (elems c ! e))) (cache c)"
    "list' (cleanup_pass clock c) =
       filter (\<lambda>e. \<not> After (clock (key (elems c ! e))) (expireAt (elems c ! e))) (list' c)"
proof -
  have dk: "distinct (map fst (cache c))" using i by (simp add: cache_inv_def)
  show "cache_inv (cleanup_pass clock c)"
    "elems (cleanup_pass clock c) = elems c"
    "capacity (cleanup_pass clock c) = capacity c"
    "expireSec (cleanup_pass clock c) = expireSec c"
    "cache (cleanup_pass clock c) =
       filter (\<lambda>(k, e). \<not> After (clock k) (expireAt (elems c ! e))) (cache c)"
    "list' (cleanup_pass clock c) =
       filter (\<lambda>e. \<not> After (clock (key (elems c ! e))) (expireAt (elems c ! e))) (list' c)"
    unfolding cleanup_pass_def by (rule sweep_entries_eq [OF i refl dk])+
qed

lemma cleanup_inv: "cache_inv c \<Longrightarrow> cache_inv (cleanup ts c)"
  by (induction ts arbitrary: c) (simp_all add: cleanup_pass_eq(1))

section \<open>Histories\<close>

lemma cleanup_pass_length:
  "cache_inv c \<Longrightarrow> length (cache (cleanup_pass clock c)) \<le> length (cache c)"
  by (simp add: cleanup_pass_eq(5))

lemma step_inv:
  assumes i: "cache_inv c" and r: "step x c = Inr c'"
  shows "cache_inv c' \<and> capacity c' = capacity c \<and> expireSec c' = expireSec c \<and>
         (int (length (cache c)) \<le> capacity c \<longrightarrow> int (length (cache c')) \<le> capacity c)"
proof (cases x)
  case (OpGet now k)
  with r have c': "c' = fst (Get now k c)" by simp
  show ?thesis unfolding c'
    using Get_inv [OF i, of now k] Get_length [of now k c] by (simp add: Get_frame)
next
  case (OpSet now k v)
  with r have "Set now k v c = Inr c'" by simp
  with i show ?thesis by (rule Set_cases)
next
  case (OpSweep clock)
  with r have c': "c' = cleanup_pass clock c" by simp
  show ?thesis unfolding c'
    using cleanup_pass_eq(1,3,4) [OF i, of clock] cleanup_pass_length [OF i, of clock] by simp
qed

lemma step_total:
  assumes i: "cache_inv c" and p: "0 < capacity c"
  shows "\<exists>c'. step x c = Inr c'"
  using Set_total [OF i p] by (cases x) simp_all

lemma run_inv:
  "cache_inv c \<Longrightarrow> run xs c = Inr c' \<Longrightarrow>
   cache_inv c' \<and> capacity c' = capacity c \<and> expireSec c' = expireSec c \<and>
   (int (length (cache c)) \<le> capacity c \<longrightarrow> int (length (cache c')) \<le> capacity c)"
proof (induction xs arbitrary: c)
  case Nil
  then show ?case by simp
next
  case (Cons x xs)
  from Cons.prems(2) obtain c1 where s: "step x c = Inr c1" and r: "run xs c1 = Inr c'"
    by (auto split: sum.splits)
  from step_inv [OF Cons.prems(1) s] Cons.IH [OF _ r] show ?case by simp
qed

lemma run_total:
  "cache_inv c \<Longrightarrow> 0 < capacity c \<Longrightarrow> \<exists>c'. run xs c = Inr c'"
proof (induction xs arbitrary: c)
  case Nil
  then show ?case by simp
next
  case (Cons x xs)
  from step_total [OF Cons.prems] obtain c1 where s: "step x c = Inr c1" by blast
  from step_inv [OF Cons.prems(1) s] Cons.prems(2)
  have "cache_inv c1" "0 < capacity c1" by simp_all
  from Cons.IH [OF this] s show ?case by simp
qed

text \<open>A new cache is empty and satisfies the invariant; a history starts from it.\<close>

lemma run_new_start:
  "\<exists>c0. run_new cap sec xs = run xs c0 \<and> cache_inv c0 \<and> capacity c0 = cap \<and> cache c0 = []"
  by (rule exI [of _ "\<lparr>capacity = cap, expireSec = sec, cache = [], list' = [], elems = []\<rparr>"])
    (simp add: run_new_def NewLRUCache_def cache_inv_def)

lemma run_new_inv:
  assumes "run_new cap sec xs = Inr c"
  shows "cache_inv c \<and> capacity c = cap \<and> (0 \<le> cap \<longrightarrow> int (length (cache c)) \<le> cap)"
proof -
  from run_new_start [of cap sec xs] obtain c0 where r: "run_new cap sec xs = run xs c0"
    and i: "cache_inv c0" and c: "capacity c0 = cap" and e: "cache c0 = []"
    by blast
  from assms r have "run xs c0 = Inr c" by simp
  from run_inv [OF i this] c e show ?thesis by auto
qed

lemma run_new_total: "0 < cap \<Longrightarrow> \<exists>c. run_new cap sec xs = Inr c"
  using run_new_start [of cap sec xs] run_total by metis

text \<open>
  Without capacity the first \<open>Set\<close> of a new cache dereferences the \<open>nil\<close> that \<open>Back()\<close>
  returns on the empty list.
\<close>

lemma Set_panics_without_capacity:
  "cap \<le> 0 \<Longrightarrow> run_new cap sec [OpSet now k v] = Inl NilPointerDereference"
  by (simp add: run_new_def NewLRUCache_def Set_def evict_back_def Back_def)

section \<open>Evaluation\<close>

lemmas eval_defs = run_new_def NewLRUCache_def Set_def Get_def insert_front_def evict_back_def
  Back_def Remove_def MoveToFront_def PushFront_def ttl_def wrap64_def Second_def After_def
  Let_def cleanup_pass_def sweep_entries_def sweep_entry_def

lemma two_entries_inv: "cache_inv two_entries"
  by (auto simp: cache_inv_def two_entries_def)

lemma last_notin_butlast: "distinct l \<Longrightarrow> l \<noteq> [] \<Longrightarrow> last l \<notin> set (butlast l)"
  by (induction l) (auto dest: in_set_butlastD)

lemma insert_front_Get:
  "\<not> After now' (now + ttl c) \<Longrightarrow> snd (Get now' k (insert_front now k v c)) = v"
  by (simp add: Get_def insert_front_def Let_def update_conv')

subsection \<open>The decoder sees no field of \<open>CacheItem\<close>\<close>

lemma no_exported_field: "filter exported CacheItem_fields = []"
  by (simp add: CacheItem_fields_def exported_def is_upper_def)

lemma decode_members_ignored: "decode_members ms it = Some it"
  by (induction ms it rule: decode_members.induct) (simp_all add: no_exported_field)

lemma SetHandler_object:
  "SetHandler now \<lparr>Method = ''POST'', Body = Some (JObj ms)\<rparr> c =
     (case Set now 0 0 c of Inl p \<Rightarrow> Inl p | Inr c' \<Rightarrow> Inr (c', 201))"
  by (simp add: SetHandler_def Decode_def decode_members_ignored zero_item_def)

section \<open>The claims\<close>

text \<open>
  Claim C1 says that for a write request whose body is well-formed JSON carrying a key and a
  value, \<open>SetHandler\<close> calls \<open>Set\<close> with that key and that value and then acknowledges
  creation. The code does not: \<open>CacheItem\<close> has no exported field, so the decoder leaves the
  item at its zero value and \<open>Set(0, 0)\<close> is called whatever the body holds
  (\<open>SetHandler_object\<close>). For the body \<open>{"key": 7, "value": 42}\<close> on a new cache of capacity
  2 and a TTL of 5 seconds, the cache afterwards holds key 0 with value 0 and nothing under
  key 7; the status is 201.
\<close>

theorem SetHandler_drops_key_and_value:
  "SetHandler 0
      \<lparr>Method = ''POST'', Body = Some (JObj [(''key'', JNum 7), (''value'', JNum 42)])\<rparr>
      \<lparr>capacity = 2, expireSec = 5, cache = [], list' = [], elems = []\<rparr> =
   Inr (\<lparr>capacity = 2, expireSec = 5, cache = [(0, 0)], list' = [0],
         elems = [\<lparr>key = 0, value' = 0, expireAt = 5000000000\<rparr>]\<rparr>, 201)"
  by (simp add: SetHandler_object eval_defs)

text \<open>
  Claim C2 says that \<open>Get(k)\<close> returns NotFound if and only if \<open>k\<close> is absent or
  \<open>now >= expireAt\<close>. It fails in both directions. At \<open>now = expireAt\<close> the entry is
  still served: in \<open>two_entries\<close>, key 1 has the deadline 5000000000 and \<open>Get\<close> at that
  very instant returns 10. And the miss value \<open>-1\<close> is also returned for a live entry
  that stores \<open>-1\<close>: in \<open>sentinel_entry\<close>, \<open>Get(1)\<close> at time 0 returns \<open>-1\<close> although key 1
  is present and its deadline lies ahead.
\<close>

theorem Get_NotFound_counterexample:
  "run_new 2 5 [OpSet 0 1 10, OpSet 2000000000 2 20] = Inr two_entries \<and>
   map_of (cache two_entries) 1 = Some 0 \<and>
   expireAt (elems two_entries ! 0) \<le> 5000000000 \<and>
   snd (Get 5000000000 1 two_entries) = 10 \<and>
   run_new 2 5 [OpSet 0 1 (- 1)] = Inr sentinel_entry \<and>
   map_of (cache sentinel_entry) 1 = Some 0 \<and>
   0 < expireAt (elems sentinel_entry ! 0) \<and>
   snd (Get 0 1 sentinel_entry) = - 1"
  by (simp add: eval_defs two_entries_def sentinel_entry_def)

text \<open>
  Claim C2 as amended: \<open>Get(k)\<close> returns \<open>-1\<close> and leaves the cache unchanged when \<open>k\<close> is
  absent from the index; when \<open>k\<close> is present and \<open>now\<close> is strictly after its deadline,
  \<open>Get\<close> returns \<open>-1\<close> and removes the entry from both the index and the order sequence;
  when \<open>k\<close> is present and \<open>now\<close> is not after its deadline, \<open>Get\<close> returns the stored value
  (which may itself be \<open>-1\<close>), leaves the index as it is and moves the entry to the front.
\<close>

theorem Get_miss_or_strictly_expired:
  assumes "cache_inv c"
  shows "(map_of (cache c) k = None \<longrightarrow> Get now k c = (c, - 1)) \<and>
         (\<forall>e. map_of (cache c) k = Some e \<longrightarrow>
            (if After now (expireAt (elems c ! e))
             then snd (Get now k c) = - 1 \<and>
                  map_of (cache (fst (Get now k c))) k = None \<and>
                  e \<notin> set (list' (fst (Get now k c)))
             else snd (Get now k c) = value' (elems c ! e) \<and>
                  cache (fst (Get now k c)) = cache c \<and>
                  hd (list' (fst (Get now k c))) = e))"
proof (intro conjI allI impI)
  assume "map_of (cache c) k = None"
  then show "Get now k c = (c, - 1)" by (simp add: Get_def)
next
  fix e assume m: "map_of (cache c) k = Some e"
  then have "(k, e) \<in> set (cache c)" using assms by (simp add: inv_lookup)
  then have el: "e \<in> set (list' c)" using inv_entry [OF assms] by blast
  have dl: "distinct (list' c)" using assms by (simp add: cache_inv_def)
  show "if After now (expireAt (elems c ! e))
             then snd (Get now k c) = - 1 \<and>
                  map_of (cache (fst (Get now k c))) k = None \<and>
                  e \<notin> set (list' (fst (Get now k c)))
             else snd (Get now k c) = value' (elems c ! e) \<and>
                  cache (fst (Get now k c)) = cache c \<and>
                  hd (list' (fst (Get now k c))) = e"
    using m el dl by (simp add: Get_def Remove_def MoveToFront_def delete_conv')
qed

theorem Get_miss_or_strictly_expired_witness:
  "cache_inv two_entries \<and>
   Get 6000000000 9 two_entries = (two_entries, - 1) \<and>
   snd (Get 6000000000 1 two_entries) = - 1 \<and>
   map_of (cache (fst (Get 6000000000 1 two_entries))) 1 = None \<and>
   0 \<notin> set (list' (fst (Get 6000000000 1 two_entries))) \<and>
   snd (Get 5000000000 1 two_entries) = 10 \<and>
   hd (list' (fst (Get 5000000000 1 two_entries))) = 0"
proof -
  have m: "map_of (cache two_entries) 9 = None" "map_of (cache two_entries) 1 = Some 0"
    by (simp_all add: two_entries_def)
  have a: "After 6000000000 (expireAt (elems two_entries ! 0))"
    "\<not> After 5000000000 (expireAt (elems two_entries ! 0))"
    "value' (elems two_entries ! 0) = 10"
    by (simp_all add: two_entries_def After_def)
  show ?thesis
    using Get_miss_or_strictly_expired [OF two_entries_inv, of 9 6000000000]
      Get_miss_or_strictly_expired [OF two_entries_inv, of 1 6000000000]
      Get_miss_or_strictly_expired [OF two_entries_inv, of 1 5000000000]
      m a two_entries_inv
    by simp
qed

text \<open>
  Claim C3 says that constructing the cache with a non-positive capacity or a non-positive
  TTL fails. \<open>NewLRUCache\<close> checks neither argument: with capacity 0 and TTL 0, with
  capacity \<open>-1\<close>, and with TTL \<open>-1\<close> it returns a cache.
\<close>

theorem NewLRUCache_counterexample:
  "NewLRUCache 0 0 =
     Inr \<lparr>capacity = 0, expireSec = 0, cache = [], list' = [], elems = []\<rparr> \<and>
   NewLRUCache (- 1) 5 =
     Inr \<lparr>capacity = - 1, expireSec = 5, cache = [], list' = [], elems = []\<rparr> \<and>
   NewLRUCache 5 (- 1) =
     Inr \<lparr>capacity = 5, expireSec = - 1, cache = [], list' = [], elems = []\<rparr>"
  by (simp add: NewLRUCache_def)

text \<open>
  Claim C3 as amended: construction validates nothing; for every capacity and every TTL,
  positive or not, it succeeds and returns an empty cache holding these two parameters.
\<close>

theorem NewLRUCache_never_fails:
  "\<exists>c. NewLRUCache cap sec = Inr c \<and> capacity c = cap \<and> expireSec c = sec \<and>
       cache c = [] \<and> list' c = []"
  by (simp add: NewLRUCache_def)

text \<open>
  Claim C4: for a cache constructed with a positive capacity and every sequence of \<open>Get\<close>,
  \<open>Set\<close> and sweep-pass operations, every operation returns, and afterwards the index and
  the order sequence hold the same number of entries, at most the capacity. (The sequence
  \<open>xs\<close> is arbitrary, so the statement holds after each of its prefixes.)
\<close>

theorem capacity_invariant:
  assumes "0 < cap"
  shows "\<exists>c. run_new cap sec xs = Inr c \<and>
             length (cache c) = length (list' c) \<and> int (length (cache c)) \<le> cap"
proof -
  from run_new_total [OF assms] obtain c where r: "run_new cap sec xs = Inr c" by blast
  from run_new_inv [OF r] assms have "cache_inv c" "int (length (cache c)) \<le> cap"
    by simp_all
  with r inv_length show ?thesis by auto
qed

theorem capacity_invariant_witness:
  "(0 :: int) < 2 \<and>
   (\<exists>c. run_new 2 5 [OpSet 0 1 10, OpSet 1 2 20, OpGet 2 1, OpSet 3 3 30,
                      OpSweep (\<lambda>k. 6000000000), OpGet 6000000001 3] = Inr c \<and>
        length (cache c) = length (list' c) \<and> int (length (cache c)) \<le> 2)"
  using capacity_invariant [of 2 5 "[OpSet 0 1 10, OpSet 1 2 20, OpGet 2 1,
      OpSet 3 3 30, OpSweep (\<lambda>k. 6000000000), OpGet 6000000001 3]"]
  by simp

text \<open>
  Claim C5: after every sequence of \<open>Get\<close>, \<open>Set\<close> and sweep-pass operations on a new cache,
  every key of the index maps to an element of the order sequence whose item carries that
  same key. With a positive capacity every such sequence runs to its end; with any
  capacity, the pairing holds whenever it does.
\<close>

theorem index_order_pairing:
  "(0 < cap \<longrightarrow> (\<exists>c. run_new cap sec xs = Inr c)) \<and>
   (\<forall>c k e. run_new cap sec xs = Inr c \<longrightarrow> map_of (cache c) k = Some e \<longrightarrow>
        e \<in> set (list' c) \<and> e < length (elems c) \<and> key (elems c ! e) = k)"
proof (intro conjI allI impI)
  assume "0 < cap"
  then show "\<exists>c. run_new cap sec xs = Inr c" by (rule run_new_total)
next
  fix c k e
  assume r: "run_new cap sec xs = Inr c" and m: "map_of (cache c) k = Some e"
  from run_new_inv [OF r] have "cache_inv c" by simp
  with m show "e \<in> set (list' c)" "e < length (elems c)" "key (elems c ! e) = k"
    using inv_entry [of c k e] by (simp_all add: inv_lookup)
qed

theorem index_order_pairing_witness:
  "(0 :: int) < 1 \<and>
   run_new 1 5 [OpSet 0 1 10, OpSet 1 2 20, OpSet 2 3 30, OpSet 3 2 40] =
     Inr \<lparr>capacity = 1, expireSec = 5, cache = [(2, 3)], list' = [3],
          elems = [\<lparr>key = 1, value' = 10, expireAt = 5000000000\<rparr>,
                   \<lparr>key = 2, value' = 20, expireAt = 5000000001\<rparr>,
                   \<lparr>key = 3, value' = 30, expireAt = 5000000002\<rparr>,
                   \<lparr>key = 2, value' = 40, expireAt = 5000000003\<rparr>]\<rparr> \<and>
   (\<exists>c. run_new 1 5 [OpSet 0 1 10, OpSet 1 2 20, OpSet 2 3 30, OpSet 3 2 40] =
        Inr c \<and> map_of (cache c) 2 = Some 3 \<and>
        3 \<in> set (list' c) \<and> 3 < length (elems c) \<and> key (elems c ! 3) = 2)"
proof -
  let ?xs = "[OpSet 0 1 10, OpSet 1 2 20, OpSet 2 3 30, OpSet 3 2 40]"
  let ?C = "\<lparr>capacity = 1, expireSec = 5, cache = [(2, 3)], list' = [3],
          elems = [\<lparr>key = 1, value' = 10, expireAt = 5000000000\<rparr>,
                   \<lparr>key = 2, value' = 20, expireAt = 5000000001\<rparr>,
                   \<lparr>key = 3, value' = 30, expireAt = 5000000002\<rparr>,
                   \<lparr>key = 2, value' = 40, expireAt = 5000000003\<rparr>]\<rparr>"
  have r: "run_new 1 5 ?xs = Inr ?C" by (simp add: eval_defs)
  have m: "map_of (cache ?C) 2 = Some 3" by simp
  from index_order_pairing [of 1 5 ?xs] r m
  have "3 \<in> set (list' ?C) \<and> 3 < length (elems ?C) \<and> key (elems ?C ! 3) = 2"
    by blast
  then have "\<exists>c. run_new 1 5 ?xs = Inr c \<and> map_of (cache c) 2 = Some 3 \<and>
        3 \<in> set (list' c) \<and> 3 < length (elems c) \<and> key (elems c ! 3) = 2"
    using r m by blast
  moreover have "(0 :: int) < 1" by simp
  ultimately show ?thesis using r by blast
qed

text \<open>
  Claim C6: when \<open>Set\<close> is called with a key that is not in the index while the cache holds
  capacity entries, it returns (it does not fail), having deleted from the index the key of
  the back element of the order sequence and removed that element from the sequence, and
  having put the new entry at the front. No premise speaks of the deadline of the back
  element: it goes whether it is expired or not. The capacity is positive, as the data model
  of the specification has it.
\<close>

theorem Set_full_evicts_back:
  assumes i: "cache_inv c" and p: "0 < capacity c"
    and full: "int (length (cache c)) = capacity c" and n: "map_of (cache c) k = None"
  shows "\<exists>c'. Set now k v c = Inr c' \<and>
           map_of (cache c) (key (elems c ! last (list' c))) = Some (last (list' c)) \<and>
           cache c' = AList.update k (length (elems c))
                        (AList.delete (key (elems c ! last (list' c))) (cache c)) \<and>
           list' c' = length (elems c) # butlast (list' c) \<and>
           elems c' = elems c @ [\<lparr>key = k, value' = v, expireAt = now + ttl c\<rparr>] \<and>
           map_of (cache c') (key (elems c ! last (list' c))) = None \<and>
           last (list' c) \<notin> set (list' c') \<and>
           map_of (cache c') k = Some (length (elems c)) \<and>
           length (cache c') = length (cache c)"
proof -
  let ?b = "last (list' c)"
  let ?kb = "key (elems c ! ?b)"
  have dl: "distinct (list' c)" using i by (simp add: cache_inv_def)
  have "cache c \<noteq> []" using p full by auto
  then have ne: "list' c \<noteq> []" using inv_length [OF i] by auto
  from evict_back_inv [OF i ne] obtain c1 where e: "evict_back c = Inr c1"
    and i1: "cache_inv c1" and l1: "Suc (length (cache c1)) = length (cache c)"
    and el1: "elems c1 = elems c" and s1: "expireSec c1 = expireSec c"
    and li1: "list' c1 = butlast (list' c)"
    and ca1: "cache c1 = AList.delete ?kb (cache c)"
    and bs: "?b \<in> snd ` set (cache c)"
    by blast
  from bs obtain kb' where m: "(kb', ?b) \<in> set (cache c)" by auto
  from inv_entry [OF i m] have kb: "?kb = kb'" and bl: "?b < length (elems c)" by simp_all
  have look: "map_of (cache c) ?kb = Some ?b" using m by (simp add: kb inv_lookup [OF i])
  with n have kne: "?kb \<noteq> k" by auto
  have n1: "map_of (cache c1) k = None" unfolding ca1 using n by (rule map_of_delete_None)
  let ?c' = "insert_front now k v c1"
  have S: "Set now k v c = Inr ?c'" using n full e by (simp add: Set_def)
  have t: "ttl c1 = ttl c" by (simp add: ttl_def s1)
  have "cache ?c' = AList.update k (length (elems c)) (AList.delete ?kb (cache c))"
    by (simp add: insert_front_def Let_def el1 ca1)
  moreover have "list' ?c' = length (elems c) # butlast (list' c)"
    by (simp add: insert_front_def Let_def PushFront_def el1 li1)
  moreover have "elems ?c' = elems c @ [\<lparr>key = k, value' = v, expireAt = now + ttl c\<rparr>]"
    by (simp add: insert_front_def Let_def el1 t)
  moreover have "map_of (cache ?c') ?kb = None"
    using kne by (simp add: insert_front_def Let_def ca1 update_conv' delete_conv')
  moreover have "?b \<notin> set (list' ?c')"
    using bl last_notin_butlast [OF dl ne]
    by (simp add: insert_front_def Let_def PushFront_def el1 li1)
  moreover have "map_of (cache ?c') k = Some (length (elems c))"
    by (simp add: insert_front_def Let_def update_conv' el1)
  moreover have "length (cache ?c') = length (cache c)"
    using insert_front_length [OF n1, of now v] l1 by simp
  ultimately show ?thesis using S look by simp
qed

text \<open>
  In the witness the back element, key 1, has the deadline 5000000000 and the call comes at
  4000000000: a live entry is evicted.
\<close>

theorem Set_full_evicts_back_witness:
  "cache_inv two_entries \<and> 0 < capacity two_entries \<and>
   int (length (cache two_entries)) = capacity two_entries \<and>
   map_of (cache two_entries) 3 = None \<and>
   \<not> After 4000000000 (expireAt (elems two_entries ! last (list' two_entries))) \<and>
   (\<exists>c'. Set 4000000000 3 30 two_entries = Inr c' \<and>
         cache c' = [(2, 1), (3, 2)] \<and> list' c' = [2, 1] \<and>
         elems c' = elems two_entries @ [\<lparr>key = 3, value' = 30, expireAt = 9000000000\<rparr>])"
proof -
  have h: "0 < capacity two_entries" "int (length (cache two_entries)) = capacity two_entries"
    "map_of (cache two_entries) 3 = None"
    by (simp_all add: two_entries_def)
  have a: "\<not> After 4000000000 (expireAt (elems two_entries ! last (list' two_entries)))"
    by (simp add: two_entries_def After_def)
  have t: "ttl two_entries = 5000000000"
    by (simp add: ttl_def wrap64_def Second_def two_entries_def)
  from Set_full_evicts_back [OF two_entries_inv h, of 4000000000 30]
  obtain c' where S: "Set 4000000000 3 30 two_entries = Inr c'"
    and C: "cache c' = AList.update 3 (length (elems two_entries))
              (AList.delete (key (elems two_entries ! last (list' two_entries)))
                 (cache two_entries))"
    and L: "list' c' = length (elems two_entries) # butlast (list' two_entries)"
    and E: "elems c' = elems two_entries @
              [\<lparr>key = 3, value' = 30, expireAt = 4000000000 + ttl two_entries\<rparr>]"
    by blast
  have "cache c' = [(2, 1), (3, 2)]" unfolding C by (simp add: two_entries_def)
  moreover have "list' c' = [2, 1]" unfolding L by (simp add: two_entries_def)
  moreover have "elems c' = elems two_entries @
      [\<lparr>key = 3, value' = 30, expireAt = 9000000000\<rparr>]"
    unfolding E t by simp
  ultimately show ?thesis using two_entries_inv h a S by blast
qed

text \<open>
  Claim C7: \<open>Set(k, v)\<close> followed at once by \<open>Get(k)\<close> returns \<open>v\<close>, provided the clock
  reading of the \<open>Get\<close> is not after the deadline that the \<open>Set\<close> wrote. The \<open>Set\<close> itself
  returns, the capacity being positive.
\<close>

theorem Set_then_Get:
  assumes i: "cache_inv c" and p: "0 < capacity c" and a: "\<not> After now' (now + ttl c)"
  shows "\<exists>c'. Set now k v c = Inr c' \<and> snd (Get now' k c') = v"
proof (cases "map_of (cache c) k")
  case (Some e)
  then have "e < length (elems c)"
    using inv_entry [OF i, of k e] by (simp add: inv_lookup [OF i])
  then show ?thesis using Some a by (simp add: Set_def Get_def)
next
  case None
  show ?thesis
  proof (cases "capacity c \<le> int (length (cache c))")
    case False
    then show ?thesis using None insert_front_Get [OF a] by (simp add: Set_def)
  next
    case True
    with p have "cache c \<noteq> []" by auto
    then have "list' c \<noteq> []" using inv_length [OF i] by auto
    from evict_back_inv [OF i this] obtain c1 where e: "evict_back c = Inr c1"
      and s1: "expireSec c1 = expireSec c" by blast
    have "ttl c1 = ttl c" by (simp add: ttl_def s1)
    with a have "\<not> After now' (now + ttl c1)" by simp
    from insert_front_Get [OF this] show ?thesis using None True e by (simp add: Set_def)
  qed
qed

theorem Set_then_Get_witness:
  "cache_inv two_entries \<and> 0 < capacity two_entries \<and>
   \<not> After 3000000000 (1000000000 + ttl two_entries) \<and>
   (\<exists>c'. Set 1000000000 3 30 two_entries = Inr c' \<and> snd (Get 3000000000 3 c') = 30)"
proof -
  have p: "0 < capacity two_entries" by (simp add: two_entries_def)
  have a: "\<not> After 3000000000 (1000000000 + ttl two_entries)"
    by (simp add: After_def ttl_def wrap64_def Second_def two_entries_def)
  from Set_then_Get [OF two_entries_inv p a] two_entries_inv p a show ?thesis by blast
qed

text \<open>
  Claim C8: on a new cache of capacity 2, with no expiration on the way,
  \<open>Set(1, a); Set(2, b); Get(1); Set(3, c)\<close> evicts key 2 and keeps key 1: afterwards
  \<open>Get(2)\<close> misses and leaves the cache as it is, \<open>Get(1)\<close> returns \<open>a\<close> and \<open>Get(3)\<close>
  returns \<open>c\<close>.
\<close>

theorem recency_refresh_scenario:
  assumes "\<not> After t_get (t_a + wrap64 (sec * Second))"
    and "\<not> After t_read (t_a + wrap64 (sec * Second))"
    and "\<not> After t_read (t_c + wrap64 (sec * Second))"
  shows "\<exists>c4. run_new 2 sec
                 [OpSet t_a 1 a, OpSet t_b 2 b, OpGet t_get 1, OpSet t_c 3 c] =
               Inr c4 \<and>
           map_of (cache c4) 2 = None \<and> map_of (cache c4) 1 = Some 0 \<and>
           Get t_read 2 c4 = (c4, - 1) \<and>
           snd (Get t_read 1 c4) = a \<and> snd (Get t_read 3 c4) = c"
  using assms
  by (simp add: run_new_def NewLRUCache_def Set_def Get_def insert_front_def evict_back_def
      Back_def Remove_def MoveToFront_def PushFront_def ttl_def Let_def)

theorem recency_refresh_scenario_witness:
  "\<not> After 2 (0 + wrap64 (100 * Second)) \<and> \<not> After 4 (0 + wrap64 (100 * Second)) \<and>
   \<not> After 4 (3 + wrap64 (100 * Second)) \<and>
   (\<exists>c4. run_new 2 100 [OpSet 0 1 10, OpSet 1 2 20, OpGet 2 1, OpSet 3 3 30] =
            Inr c4 \<and>
          map_of (cache c4) 2 = None \<and> map_of (cache c4) 1 = Some 0 \<and>
          Get 4 2 c4 = (c4, - 1) \<and> snd (Get 4 1 c4) = 10 \<and> snd (Get 4 3 c4) = 30)"
proof -
  have h: "\<not> After 2 (0 + wrap64 (100 * Second))" "\<not> After 4 (0 + wrap64 (100 * Second))"
   "\<not> After 4 (3 + wrap64 (100 * Second))"
    by (simp_all add: After_def wrap64_def Second_def)
  from recency_refresh_scenario [OF h, where t_b = 1 and a = 10 and b = 20 and c = 30] h
  show ?thesis by blast
qed

text \<open>
  Claim C9: one sweep pass removes from the index and from the order sequence exactly the
  entries whose deadline has passed when the pass looks at them, and keeps every other
  entry, in its place; no premise speaks of how full the cache is. \<open>clock k\<close> is the clock
  reading of the pass at the entry of key \<open>k\<close>; a pass that takes the one reading \<open>now\<close>
  is \<open>clock = (\<lambda>k. now)\<close>.
\<close>

theorem cleanup_pass_removes_expired_only:
  assumes "cache_inv c"
  shows "cache (cleanup_pass clock c) =
           filter (\<lambda>(k, e). \<not> After (clock k) (expireAt (elems c ! e))) (cache c) \<and>
         list' (cleanup_pass clock c) =
           filter (\<lambda>e. \<not> After (clock (key (elems c ! e))) (expireAt (elems c ! e)))
             (list' c) \<and>
         elems (cleanup_pass clock c) = elems c"
  using cleanup_pass_eq(2,5,6) [OF assms, of clock] by simp

theorem cleanup_pass_removes_expired_only_witness:
  "cache_inv two_entries \<and>
   cache (cleanup_pass (\<lambda>k. 6000000000) two_entries) = [(2, 1)] \<and>
   list' (cleanup_pass (\<lambda>k. 6000000000) two_entries) = [1] \<and>
   elems (cleanup_pass (\<lambda>k. 6000000000) two_entries) = elems two_entries"
proof -
  have "filter (\<lambda>(k, e). \<not> After 6000000000 (expireAt (elems two_entries ! e)))
          (cache two_entries) = [(2, 1)]"
    "filter (\<lambda>e. \<not> After 6000000000 (expireAt (elems two_entries ! e)))
          (list' two_entries) = [1]"
    by (simp_all add: two_entries_def After_def)
  with cleanup_pass_removes_expired_only [OF two_entries_inv, of "\<lambda>k. 6000000000"]
    two_entries_inv
  show ?thesis by simp
qed

text \<open>
  Claim C10: \<open>Get(k)\<close> for a key absent from the index returns the miss value and the very
  cache it was given: index, order sequence, items and deadlines are all as before.
\<close>

theorem Get_absent_unchanged:
  "map_of (cache c) k = None \<Longrightarrow> Get now k c = (c, - 1)"
  by (simp add: Get_def)

theorem Get_absent_unchanged_witness:
  "map_of (cache two_entries) 9 = None \<and> Get 0 9 two_entries = (two_entries, - 1)"
proof -
  have h: "map_of (cache two_entries) 9 = None" by (simp add: two_entries_def)
  from h Get_absent_unchanged [OF h, of 0] show ?thesis by simp
qed

end
